theory Spec2Isabelle
  imports Complex_Main "HOL-Library.Sublist" "HOL-Library.List_Lexorder" "HOL-Library.Char_ord"
begin

section \<open>The score object model\<close>

text \<open>
  The scripts work on the object model of the notation library: a score is a sequence of
  parts, a part a sequence of measures, a measure a stream of elements, each at an offset
  (in quarter lengths) from the start of the measure. A pitch is kept as its number of
  semitones (the library's pitch-space number): the interval \<^verbatim>\<open>Interval('-m2')\<close> of the
  source lowers that number by one. A key signature is its count of sharps (negative:
  flats). Measures are flat: their elements are their direct members, so that
  \<^verbatim>\<open>measure.flatten()\<close> enumerates exactly the list \<open>elements\<close>, in order. An
  element of any other class (a clef, a time signature, a rest) is kept as the name of
  its class and the class sort order the library gives that class.
\<close>

type_synonym pitch = int
type_synonym offset = rat

datatype element =
    is_KeySignature: KeySignature (sharps: int)
  | is_Note: Note (pitch: pitch) (lyric_of: "string option")
  | is_Chord: Chord (pitches: "pitch list") (chord_lyric: "string option")
  | Other string int

record measure =
  number :: int
  elements :: "(offset \<times> element) list"

type_synonym part = "measure list"
type_synonym score = "part list"

section \<open>remove\_key\_change\<close>

text \<open>\<^verbatim>\<open>transpose_interval = interval.Interval('-m2')  # Down a semitone\<close>\<close>

definition transpose_interval :: int where
  "transpose_interval = - 1"

text \<open>\<^verbatim>\<open>element.transpose(transpose_interval, inPlace=True)\<close> on a Note or a Chord; the loop
  leaves every other element alone.\<close>

fun transpose_element :: "element \<Rightarrow> element" where
  "transpose_element (Note p l) = Note (p + transpose_interval) l"
| "transpose_element (Chord ps l) = Chord (map (\<lambda>p. p + transpose_interval) ps) l"
| "transpose_element e = e"

text \<open>The three local variables of the loop over one part.\<close>

record counters =
  in_modulation :: bool
  key_sigs_replaced :: nat
  measures_transposed :: nat

text \<open>\<^verbatim>\<open>ks_list = list(measure.getElementsByClass('KeySignature'))\<close>\<close>

definition getKeySignatures :: "(offset \<times> element) list \<Rightarrow> (offset \<times> element) list" where
  "getKeySignatures els = filter (\<lambda>x. is_KeySignature (snd x)) els"

text \<open>
  The library keeps the elements of a stream sorted: by offset, then by class sort order
  (0 for a clef, 2 for a key signature, 4 for a time signature, 20 for a Note, a Chord
  or a rest), then by the order of insertion. \<^verbatim>\<open>measure.insert(offset, element)\<close> adds the
  element last, so in the order of the stream it comes after every element that does not
  sort strictly after it, and the other elements keep their order. Priorities other than
  the default are not modelled.
\<close>

fun classSortOrder :: "element \<Rightarrow> int" where
  "classSortOrder (KeySignature _) = 2"
| "classSortOrder (Note _ _) = 20"
| "classSortOrder (Chord _ _) = 20"
| "classSortOrder (Other _ c) = c"

definition sorts_after :: "offset \<times> element \<Rightarrow> offset \<times> element \<Rightarrow> bool" where
  "sorts_after y x =
     (fst x < fst y \<or> (fst x = fst y \<and> classSortOrder (snd x) < classSortOrder (snd y)))"

fun stream_insert :: "offset \<times> element \<Rightarrow> (offset \<times> element) list \<Rightarrow> (offset \<times> element) list" where
  "stream_insert x [] = [x]"
| "stream_insert x (y # ys) = (if sorts_after y x then x # y # ys else y # stream_insert x ys)"

text \<open>
  The loop \<^verbatim>\<open>for ks in ks_list\<close>: a key signature of five sharps or more is removed from the
  measure (\<^verbatim>\<open>measure.remove(ks)\<close>) and a new \<^verbatim>\<open>KeySignature(-4)\<close> is inserted at offset 0 of
  the measure (\<^verbatim>\<open>measure.insert(0, key.KeySignature(-4))\<close>).
\<close>

fun replace_key_sigs ::
  "(offset \<times> element) list \<Rightarrow> (offset \<times> element) list \<times> counters
     \<Rightarrow> (offset \<times> element) list \<times> counters" where
  "replace_key_sigs [] (els, st) = (els, st)"
| "replace_key_sigs ((off, ks) # ks_list) (els, st) =
     (if 5 \<le> sharps ks
      then replace_key_sigs ks_list
             (stream_insert (0, KeySignature (- 4)) (remove1 (off, ks) els),
              st\<lparr>in_modulation := True, key_sigs_replaced := key_sigs_replaced st + 1\<rparr>)
      else replace_key_sigs ks_list (els, st))"

text \<open>The body of the loop over the measures of a part.\<close>

definition process_measure :: "measure \<Rightarrow> counters \<Rightarrow> measure \<times> counters" where
  "process_measure m st =
     (case replace_key_sigs (getKeySignatures (elements m)) (elements m, st) of
        (els, st1) \<Rightarrow>
          if in_modulation st1
          then (m\<lparr>elements := map (\<lambda>(off, e). (off, transpose_element e)) els\<rparr>,
                st1\<lparr>measures_transposed := measures_transposed st1 + 1\<rparr>)
          else (m\<lparr>elements := els\<rparr>, st1))"

fun process_measures :: "measure list \<Rightarrow> counters \<Rightarrow> measure list \<times> counters" where
  "process_measures [] st = ([], st)"
| "process_measures (m # ms) st =
     (case process_measure m st of
        (m', st1) \<Rightarrow>
          (case process_measures ms st1 of (ms', st2) \<Rightarrow> (m' # ms', st2)))"

text \<open>One part: the counters start at \<open>False\<close>, 0, 0; the two counts are what the source
  prints for the part.\<close>

definition process_part :: "part \<Rightarrow> part \<times> (nat \<times> nat)" where
  "process_part p =
     (case process_measures p
             \<lparr>in_modulation = False, key_sigs_replaced = 0, measures_transposed = 0\<rparr> of
        (p', st) \<Rightarrow> (p', (key_sigs_replaced st, measures_transposed st)))"

text \<open>The whole transform: the score as the loops leave it in memory, which the source
  then hands to the writer of the library, and the report lines, one per part (key
  signatures replaced, measures transposed).\<close>

definition remove_key_change :: "score \<Rightarrow> score \<times> (nat \<times> nat) list" where
  "remove_key_change score = (map (fst \<circ> process_part) score, map (snd \<circ> process_part) score)"

section \<open>add\_lyrics\<close>

text \<open>The table of syllables of the source; the dash of \<^verbatim>\<open>roll\<close> and the quotation marks are
  written as their bytes.\<close>

definition lyrics :: "string list" where
  "lyrics =
   [''When'', ''peace,'', ''like'', ''a'', ''riv'', ''-'', ''er,'', ''at'', ''-'',
    ''tend'', ''-'', ''eth'', ''my'', ''way,'', ''When'', ''sor'', ''-'', ''rows'',
    ''like'', ''sea'', ''bil'', ''-'', ''lows'', ''roll'' @ [CHR 0xE2, CHR 0x80, CHR 0x94],
    ''What'', ''-'', ''ev'', ''-'', ''er'', ''my'', ''lot,'', ''Thou'', ''hast'',
    ''taught'', ''me'', ''to'', ''say,'', [CHR 0x22] @ ''It'', ''is'', ''well,'', ''it'',
    ''is'', ''well'', ''with'', ''my'', ''soul.'' @ [CHR 0x22], ''Though'', ''Sat'', ''-'',
    ''an'', ''should'', ''buf'', ''-'', ''fet,'', ''though'', ''tri'', ''-'', ''als'',
    ''should'', ''come,'', ''Let'', ''this'', ''blest'', ''as'', ''-'', ''sur'', ''-'',
    ''ance'', ''con'', ''-'', ''trol:'', ''That'', ''Christ'', ''hath'', ''re'', ''-'',
    ''gard'', ''-'', ''ed'', ''my'', ''help'', ''-'', ''less'', ''es'', ''-'', ''tate'',
    ''And'', ''hath'', ''shed'', ''His'', ''own'', ''blood'', ''for'', ''my'', ''soul.'',
    ''It'', ''is'', ''well'', ''with'', ''my'', ''soul;'', ''It'', ''is'', ''well'',
    ''with'', ''my'', ''soul;'', ''It'', ''is'', ''well,'', ''it'', ''is'', ''well'',
    ''with'', ''my'', ''soul.'']"

text \<open>\<^verbatim>\<open>part.flatten()\<close>: the elements of the measures of the part, measure after measure.\<close>

definition flatten :: "part \<Rightarrow> (offset \<times> element) list" where
  "flatten p = concat (map elements p)"

text \<open>
  \<^verbatim>\<open>notes_list = [n for n in part.flatten().notes if isinstance(n, note.Note)]\<close>. The list
  holds references to the Notes of the part; a reference is the position of the Note in
  the flattened part. \<^verbatim>\<open>.notes\<close> selects Notes and Chords, the test keeps the Notes.
\<close>

definition notes_list :: "(offset \<times> element) list \<Rightarrow> nat list" where
  "notes_list flat =
     filter (\<lambda>k. is_Note (snd (flat ! k)))
       (filter (\<lambda>k. is_Note (snd (flat ! k)) \<or> is_Chord (snd (flat ! k))) [0..<length flat])"

text \<open>
  \<^verbatim>\<open>n.lyric = lyric\<close> goes through the lyric setter of the library: the string is split
  at line feeds into one lyric per line, and each lyric keeps its text without a hyphen
  at its start or at its end (the hyphen sets the syllabic type, which is not kept here).
  Reading \<^verbatim>\<open>n.lyric\<close> joins the texts with line feeds. \<open>str.split\<close> and \<open>str.join\<close>
  on the line feed:
\<close>

fun split_lines :: "string \<Rightarrow> string list" where
  "split_lines [] = [[]]"
| "split_lines (c # cs) =
     (if c = CHR 0x0A then [] # split_lines cs
      else (case split_lines cs of [] \<Rightarrow> [[c]] | l # ls \<Rightarrow> (c # l) # ls))"

fun join_lines :: "string list \<Rightarrow> string" where
  "join_lines [] = []"
| "join_lines [l] = l"
| "join_lines (l # ls) = l @ [CHR 0x0A] @ join_lines ls"

text \<open>The text of a lyric made from a raw string: \<^verbatim>\<open>rawText[1:]\<close>, \<^verbatim>\<open>rawText[:-1]\<close> or
  \<^verbatim>\<open>rawText[1:-1]\<close> as the string starts or ends with a hyphen.\<close>

definition lyric_text :: "string \<Rightarrow> string" where
  "lyric_text rawText =
     (let starts = (rawText \<noteq> [] \<and> hd rawText = CHR ''-'');
          ends = (rawText \<noteq> [] \<and> last rawText = CHR ''-'')
      in if starts \<and> \<not> ends then tl rawText
         else if \<not> starts \<and> ends then butlast rawText
         else if starts \<and> ends then butlast (tl rawText)
         else rawText)"

definition lyric_setter :: "string \<Rightarrow> string" where
  "lyric_setter v = join_lines (map lyric_text (split_lines v))"

fun set_lyric :: "string \<Rightarrow> element \<Rightarrow> element" where
  "set_lyric v (Note p _) = Note p (Some (lyric_setter v))"
| "set_lyric v (Chord ps _) = Chord ps (Some (lyric_setter v))"
| "set_lyric v e = e"

text \<open>
  \<^verbatim>\<open>for i, lyric in enumerate(lyrics): if i < len(notes_list): notes_list[i].lyric = lyric\<close>,
  with \<open>i\<close> the index the enumeration has reached.
\<close>

fun assign_lyrics ::
  "nat \<Rightarrow> string list \<Rightarrow> nat list \<Rightarrow> (offset \<times> element) list \<Rightarrow> (offset \<times> element) list" where
  "assign_lyrics i [] refs flat = flat"
| "assign_lyrics i (lyric # rest) refs flat =
     assign_lyrics (Suc i) rest refs
       (if i < length refs
        then flat[refs ! i := (fst (flat ! (refs ! i)), set_lyric lyric (snd (flat ! (refs ! i))))]
        else flat)"

text \<open>
  The Notes reached through the flattened part are the objects the measures hold, so a
  lyric set there is seen in the measure of the Note: the measures of the part read their
  elements back from the updated list.
\<close>

fun measures_of :: "part \<Rightarrow> (offset \<times> element) list \<Rightarrow> part" where
  "measures_of [] flat = []"
| "measures_of (m # ms) flat =
     m\<lparr>elements := take (length (elements m)) flat\<rparr>
       # measures_of ms (drop (length (elements m)) flat)"

definition add_lyrics_part :: "string list \<Rightarrow> part \<Rightarrow> part" where
  "add_lyrics_part syllables p =
     measures_of p (assign_lyrics 0 syllables (notes_list (flatten p)) (flatten p))"

text \<open>\<^verbatim>\<open>for part_idx, part in enumerate(score.parts[:1])\<close>: the first part only, when there
  is one. The syllables are a parameter here; the source passes its table.\<close>

definition add_lyrics_with :: "string list \<Rightarrow> score \<Rightarrow> score" where
  "add_lyrics_with syllables score =
     map (add_lyrics_part syllables) (take 1 score) @ drop 1 score"

definition add_lyrics :: "score \<Rightarrow> score" where
  "add_lyrics score = add_lyrics_with lyrics score"

section \<open>The stages around the transform\<close>

subsection \<open>Errors and external programs\<close>

text \<open>
  The exceptions the functions below can end in: the two the source raises itself, and
  those of \<^verbatim>\<open>subprocess.run\<close>: the program cannot be started (FileNotFoundError when
  it is not installed, or another OSError), it is still running at the timeout the source
  passes (TimeoutExpired, with the command and the timeout), or, with \<^verbatim>\<open>text=True\<close>,
  its captured output is not text in the encoding of the host.
\<close>

datatype error =
    ValueError string
  | RuntimeError string
  | OSError string
  | TimeoutExpired "string list" nat
  | UnicodeDecodeError

text \<open>What a program that has exited leaves: its exit status and the bytes captured from
  its two output streams. A run fails to start, times out, or ends.\<close>

record completed_process =
  returncode :: int
  stdout :: string
  stderr :: string

datatype run_result = StartFailed string | TimedOut | Exited completed_process

subsection \<open>export\_to\_pdf\<close>

text \<open>
  With \<^verbatim>\<open>text=True\<close> the captured bytes are decoded, and in the text every CR LF and
  every other CR becomes LF.
  \<open>decode\<close> stands for the codec of the host: the text of a byte string, or nothing when
  the bytes are not valid.
\<close>

fun universal_newlines :: "string \<Rightarrow> string" where
  "universal_newlines [] = []"
| "universal_newlines [c] = (if c = CHR 0x0D then [CHR 0x0A] else [c])"
| "universal_newlines (c # d # cs) =
     (if c = CHR 0x0D \<and> d = CHR 0x0A then CHR 0x0A # universal_newlines cs
      else if c = CHR 0x0D then CHR 0x0A # universal_newlines (d # cs)
      else c # universal_newlines (d # cs))"

definition translate_newlines :: "(string \<Rightarrow> string option) \<Rightarrow> string \<Rightarrow> string option" where
  "translate_newlines decode data = map_option universal_newlines (decode data)"

text \<open>
  \<open>run\<close> stands for the host: it tells how the run of a command with a timeout (in
  seconds) ends. Both captured streams are decoded before the exit status is looked at.
\<close>

definition export_to_pdf ::
  "(string \<Rightarrow> string option) \<Rightarrow> (string list \<Rightarrow> nat \<Rightarrow> run_result)
     \<Rightarrow> string \<Rightarrow> string \<Rightarrow> error + string" where
  "export_to_pdf decode run musicxml_path pdf_path =
     (case run [''musescore3'', musicxml_path, ''-o'', pdf_path] 120 of
        StartFailed msg \<Rightarrow> Inl (OSError msg)
      | TimedOut \<Rightarrow> Inl (TimeoutExpired [''musescore3'', musicxml_path, ''-o'', pdf_path] 120)
      | Exited raw \<Rightarrow>
          (case (translate_newlines decode (stdout raw), translate_newlines decode (stderr raw)) of
             (Some out, Some err) \<Rightarrow>
               if returncode raw = 0 then Inr pdf_path
               else Inl (RuntimeError (''MuseScore export failed: '' @ err))
           | _ \<Rightarrow> Inl UnicodeDecodeError))"

subsection \<open>ocr\_images\_to\_musicxml\<close>

text \<open>\<^verbatim>\<open>os.path.basename\<close>, \<^verbatim>\<open>.replace('.png', '')\<close> and \<^verbatim>\<open>os.path.join\<close> of two
  components, on POSIX paths.\<close>

definition basename :: "string \<Rightarrow> string" where
  "basename p = rev (takeWhile (\<lambda>c. c \<noteq> CHR ''/'') (rev p))"

fun replace_png :: "string \<Rightarrow> string" where
  "replace_png [] = []"
| "replace_png (c # cs) =
     (if c = CHR ''.'' \<and> take 3 cs = ''png'' then replace_png (drop 3 cs)
      else c # replace_png cs)"

definition path_join :: "string \<Rightarrow> string \<Rightarrow> string" where
  "path_join a b =
     (if b \<noteq> [] \<and> hd b = CHR ''/'' then b
      else if a = [] \<or> last a = CHR ''/'' then a @ b
      else a @ ''/'' @ b)"

text \<open>
  The host as this stage uses it, over a state \<open>'w\<close> of the file system: creating a
  directory, running a command with a timeout, and listing the files that match a
  pattern.
\<close>

record 'w host =
  host_makedirs :: "string \<Rightarrow> 'w \<Rightarrow> 'w"
  host_run :: "string list \<Rightarrow> nat \<Rightarrow> 'w \<Rightarrow> run_result \<times> 'w"
  host_glob :: "string \<Rightarrow> 'w \<Rightarrow> string list"

text \<open>The variables of the loop: the list \<^verbatim>\<open>xml_files\<close>, the commands run so far, in
  order, and the state of the file system.\<close>

record 'w ocr_state =
  st_xml_files :: "string list"
  st_ran :: "string list list"
  st_world :: 'w

definition page_output_dir :: "string \<Rightarrow> string \<Rightarrow> string" where
  "page_output_dir output_dir img_path = path_join output_dir (replace_png (basename img_path))"

definition oemer_command :: "string \<Rightarrow> string \<Rightarrow> string list" where
  "oemer_command output_dir img_path =
     [''oemer'', img_path, ''-o'', page_output_dir output_dir img_path]"

text \<open>The loop over the images it is given. A run that cannot start or that times out
  ends the loop with the exception; the output is captured as bytes, and neither it nor
  the exit status of a run that ends is looked at.\<close>

fun ocr_loop ::
  "'w host \<Rightarrow> string \<Rightarrow> string list \<Rightarrow> 'w ocr_state \<Rightarrow> error option \<times> 'w ocr_state" where
  "ocr_loop h output_dir [] st = (None, st)"
| "ocr_loop h output_dir (img_path # rest) st =
     (let w1 = host_makedirs h (page_output_dir output_dir img_path) (st_world st);
          cmd = oemer_command output_dir img_path
      in case host_run h cmd 600 w1 of
           (StartFailed msg, w2) \<Rightarrow>
             (Some (OSError msg), st\<lparr>st_ran := st_ran st @ [cmd], st_world := w2\<rparr>)
         | (TimedOut, w2) \<Rightarrow>
             (Some (TimeoutExpired cmd 600), st\<lparr>st_ran := st_ran st @ [cmd], st_world := w2\<rparr>)
         | (Exited result, w2) \<Rightarrow>
             (let found_files =
                    host_glob h (path_join (page_output_dir output_dir img_path) ''*.musicxml'') w2
              in ocr_loop h output_dir rest
                   (st\<lparr>st_xml_files := (if found_files \<noteq> [] then st_xml_files st @ [hd found_files]
                                      else st_xml_files st),
                       st_ran := st_ran st @ [cmd], st_world := w2\<rparr>)))"

text \<open>
  \<^verbatim>\<open>for img_path in image_paths[1:]\<close>, then \<^verbatim>\<open>return sorted(xml_files)\<close>. The result is
  the exception or the sorted list, together with the commands run and the file system
  left behind.
\<close>

definition ocr_images_to_musicxml ::
  "'w host \<Rightarrow> string list \<Rightarrow> string \<Rightarrow> 'w \<Rightarrow> (error + string list) \<times> string list list \<times> 'w" where
  "ocr_images_to_musicxml h image_paths output_dir w =
     (case ocr_loop h output_dir (drop 1 image_paths)
             \<lparr>st_xml_files = [], st_ran = [], st_world = host_makedirs h output_dir w\<rparr> of
        (Some e, st) \<Rightarrow> (Inl e, st_ran st, st_world st)
      | (None, st) \<Rightarrow> (Inr (sort (st_xml_files st)), st_ran st, st_world st))"

subsection \<open>combine\_musicxml\_pages\<close>

text \<open>
  \<^verbatim>\<open>for part_idx, part in enumerate(score.parts)\<close>, with \<open>part_idx\<close> the index the
  enumeration has reached: the measures of the part are appended, one by one, to the part
  of the combined score at the same index, when there is one.
\<close>

fun append_parts :: "nat \<Rightarrow> part list \<Rightarrow> score \<Rightarrow> score" where
  "append_parts part_idx [] combined = combined"
| "append_parts part_idx (part # rest) combined =
     append_parts (Suc part_idx) rest
       (if part_idx < length combined
        then combined[part_idx := fold (\<lambda>measure p. p @ [measure]) part (combined ! part_idx)]
        else combined)"

text \<open>\<open>parse\<close> stands for \<^verbatim>\<open>converter.parse\<close>: the score a file holds.\<close>

definition combine_musicxml_pages :: "(string \<Rightarrow> score) \<Rightarrow> string list \<Rightarrow> error + score" where
  "combine_musicxml_pages parse xml_files =
     (if xml_files = [] then Inl (ValueError ''No MusicXML files to combine!'')
      else Inr (fold (\<lambda>xml_file combined. append_parts 0 (parse xml_file) combined)
                  (tl xml_files) (parse (hd xml_files))))"

section \<open>Vocabulary of the properties\<close>

text \<open>A key signature of five sharps or more: the test \<^verbatim>\<open>ks.sharps >= 5\<close> of the source.\<close>

definition qualifying :: "offset \<times> element \<Rightarrow> bool" where
  "qualifying x = (is_KeySignature (snd x) \<and> 5 \<le> sharps (snd x))"

definition count_qualifying :: "(offset \<times> element) list \<Rightarrow> nat" where
  "count_qualifying els = length (filter qualifying els)"

text \<open>A measure triggers modulation when it holds such a key signature.\<close>

definition triggers :: "measure \<Rightarrow> bool" where
  "triggers m = (0 < count_qualifying (elements m))"

text \<open>The pitches of a measure: one list per Note (its pitch) and per Chord (its pitches),
  in the order of the measure.\<close>

definition measure_pitches :: "measure \<Rightarrow> pitch list list" where
  "measure_pitches m =
     map (\<lambda>x. case snd x of Note p l \<Rightarrow> [p] | Chord ps l \<Rightarrow> ps | _ \<Rightarrow> [])
       (filter (\<lambda>x. is_Note (snd x) \<or> is_Chord (snd x)) (elements m))"

text \<open>What the replacement loop makes of the elements of a measure, and what the whole
  loop body makes of a measure in modulation.\<close>

definition replaced :: "(offset \<times> element) list \<Rightarrow> (offset \<times> element) list" where
  "replaced els =
     foldl (\<lambda>acc k. stream_insert (0, KeySignature (- 4)) (remove1 k acc)) els
       (filter qualifying els)"

definition transposed_measure :: "measure \<Rightarrow> measure" where
  "transposed_measure m =
     m\<lparr>elements := map (\<lambda>(off, e). (off, transpose_element e)) (replaced (elements m))\<rparr>"

text \<open>The Notes of a part in traversal order, and the part with the lyric of every Note
  erased: what is left of a part when the lyrics of its Notes are not looked at.\<close>

definition part_notes :: "part \<Rightarrow> element list" where
  "part_notes p = filter is_Note (map snd (flatten p))"

fun erase_lyric :: "offset \<times> element \<Rightarrow> offset \<times> element" where
  "erase_lyric (off, Note p l) = (off, Note p None)"
| "erase_lyric (off, e) = (off, e)"

definition strip_note_lyrics :: "part \<Rightarrow> part" where
  "strip_note_lyrics p = map (\<lambda>m. m\<lparr>elements := map erase_lyric (elements m)\<rparr>) p"

text \<open>The overlay written as one pass over the flattened part: each Note takes the next
  syllable while there is one.\<close>

fun overlay :: "string list \<Rightarrow> (offset \<times> element) list \<Rightarrow> (offset \<times> element) list" where
  "overlay ls [] = []"
| "overlay ls (x # xs) =
     (if is_Note (snd x)
      then (case ls of
              [] \<Rightarrow> x # xs
            | l # ls' \<Rightarrow> (fst x, set_lyric l (snd x)) # overlay ls' xs)
      else x # overlay ls xs)"

text \<open>A result that is an exception.\<close>

definition is_raise :: "error + 'a \<Rightarrow> bool" where
  "is_raise r = (case r of Inl e \<Rightarrow> True | Inr v \<Rightarrow> False)"

text \<open>The measures a page brings to the part at index \<open>i\<close>: those of its own part at that
  index, none when it has no such part.\<close>

definition page_part :: "score \<Rightarrow> nat \<Rightarrow> part" where
  "page_part page i = (if i < length page then page ! i else [])"

section \<open>Example scores\<close>

text \<open>Two parts. The first has three measures, the second of them with a key signature of
  six sharps; the second part never modulates.\<close>

definition ex_score :: score where
  "ex_score =
    [[\<lparr>number = 1, elements = [(0, KeySignature 1), (0, Note 60 None), (1, Chord [60, 64, 67] None)]\<rparr>,
      \<lparr>number = 2, elements = [(0, KeySignature 6), (0, Note 66 None)]\<rparr>,
      \<lparr>number = 3, elements = [(0, Note 68 None), (1, Other ''Rest'' 20)]\<rparr>],
     [\<lparr>number = 1, elements = [(0, Note 48 None)]\<rparr>,
      \<lparr>number = 2, elements = [(0, KeySignature 2), (0, Note 50 None)]\<rparr>]]"

text \<open>One measure whose key signature of six sharps stands in the middle of the measure.\<close>

definition ex_midmeasure :: score where
  "ex_midmeasure =
    [[\<lparr>number = 1, elements = [(0, Note 60 None), (2, KeySignature 6), (2, Note 61 None)]\<rparr>]]"

text \<open>A melody of three Notes and a Chord over two measures, the second Note with a lyric
  already, and an accompaniment part.\<close>

definition ex_melody :: score where
  "ex_melody =
    [[\<lparr>number = 1, elements = [(0, Note 60 None), (1, Chord [60, 64] None), (2, Note 62 (Some ''la''))]\<rparr>,
      \<lparr>number = 2, elements = [(0, Other ''Rest'' 20), (1, Note 64 None)]\<rparr>],
     [\<lparr>number = 1, elements = [(0, Note 48 None)]\<rparr>]]"

text \<open>Three renderers: one that exits with a given status and diagnostic output, one that
  is still running at the timeout, one that is not installed. A codec that takes ASCII
  bytes only.\<close>

definition host_exit :: "int \<Rightarrow> string \<Rightarrow> string list \<Rightarrow> nat \<Rightarrow> run_result" where
  "host_exit code err cmd timeout = Exited \<lparr>returncode = code, stdout = [], stderr = err\<rparr>"

definition host_hang :: "string list \<Rightarrow> nat \<Rightarrow> run_result" where
  "host_hang cmd timeout = TimedOut"

definition host_missing :: "string list \<Rightarrow> nat \<Rightarrow> run_result" where
  "host_missing cmd timeout = StartFailed (hd cmd)"

definition ascii_decode :: "string \<Rightarrow> string option" where
  "ascii_decode data = (if list_all (\<lambda>c. of_char c < (128 :: nat)) data then Some data else None)"

text \<open>A host for the recognition stage: the state counts the runs; every run exits with
  status 0; the pattern of a page directory matches one file, except in the directory of
  page 3. Four page images, not in the order of their names.\<close>

definition ex_host :: "nat host" where
  "ex_host =
     \<lparr>host_makedirs = (\<lambda>d w. w),
      host_run = (\<lambda>cmd timeout w. (Exited \<lparr>returncode = 0, stdout = [], stderr = []\<rparr>, Suc w)),
      host_glob = (\<lambda>pat w. if pat = ''xml/page_03/*.musicxml'' then []
                             else [take (length pat - 10) pat @ ''score.musicxml''])\<rparr>"

definition ex_images :: "string list" where
  "ex_images = [''img/page_01.png'', ''img/page_04.png'', ''img/page_03.png'', ''img/page_02.png'']"

text \<open>Three pages: the first of two parts, the second of three, the third of one.\<close>

definition ex_measure :: "int \<Rightarrow> measure" where
  "ex_measure n = \<lparr>number = n, elements = [(0, Note (60 + n) None)]\<rparr>"

definition ex_parse :: "string \<Rightarrow> score" where
  "ex_parse f =
     (if f = ''p1.musicxml'' then [[ex_measure 1, ex_measure 2], [ex_measure 3]]
      else if f = ''p2.musicxml'' then [[ex_measure 4], [ex_measure 5], [ex_measure 6]]
      else [[ex_measure 7]])"

text \<open>One measure with a clef, a key signature of six sharps, one of one sharp and a time
  signature, all at offset 0, before its Note.\<close>

definition ex_offset0 :: score where
  "ex_offset0 =
    [[\<lparr>number = 1,
       elements = [(0, Other ''TrebleClef'' 0), (0, KeySignature 6), (0, KeySignature 1),
                   (0, Other ''TimeSignature'' 4), (0, Note 66 None)]\<rparr>]]"

text \<open>A melody of seven Notes, with a Chord between them, over two measures.\<close>

definition ex_tune :: score where
  "ex_tune =
    [[\<lparr>number = 1, elements = [(0, Note 60 None), (1, Note 62 None), (2, Chord [60, 64] None),
                              (3, Note 64 None)]\<rparr>,
      \<lparr>number = 2, elements = [(0, Note 65 None), (1, Note 67 None), (2, Note 69 None),
                              (3, Note 71 None)]\<rparr>]]"

section \<open>Properties of remove\_key\_change\<close>

subsection \<open>The loops in closed form\<close>

lemma filter_stream_insert:
  "\<not> P x \<Longrightarrow> filter P (stream_insert x xs) = filter P xs"
  by (induction xs) simp_all

lemma stream_insert_position:
  "stream_insert x xs =
     takeWhile (\<lambda>y. \<not> sorts_after y x) xs @ x # dropWhile (\<lambda>y. \<not> sorts_after y x) xs"
  by (induction xs) simp_all

lemma filter_stream_insert_in:
  "P x \<Longrightarrow> length (filter P (stream_insert x xs)) = Suc (length (filter P xs))"
  by (induction xs) simp_all

lemma replace_key_sigs_fold:
  "replace_key_sigs kss (els, st) =
     (foldl (\<lambda>acc k. stream_insert (0, KeySignature (- 4)) (remove1 k acc)) els
        (filter (\<lambda>k. 5 \<le> sharps (snd k)) kss),
      st\<lparr>in_modulation := in_modulation st \<or> 0 < length (filter (\<lambda>k. 5 \<le> sharps (snd k)) kss),
         key_sigs_replaced := key_sigs_replaced st + length (filter (\<lambda>k. 5 \<le> sharps (snd k)) kss)\<rparr>)"
proof (induction kss arbitrary: els st)
  case Nil
  show ?case by simp
next
  case (Cons k kss)
  obtain off ks where k: "k = (off, ks)" by (cases k)
  show ?case unfolding k by (simp add: Cons)
qed

lemma filter_qualifying_KS:
  "filter (\<lambda>k. 5 \<le> sharps (snd k)) (getKeySignatures els) = filter qualifying els"
  by (auto simp: getKeySignatures_def qualifying_def intro: filter_cong)

lemma replace_key_sigs_eq:
  "replace_key_sigs (getKeySignatures els) (els, st) =
     (replaced els,
      st\<lparr>in_modulation := in_modulation st \<or> 0 < count_qualifying els,
         key_sigs_replaced := key_sigs_replaced st + count_qualifying els\<rparr>)"
  by (simp add: replace_key_sigs_fold filter_qualifying_KS replaced_def count_qualifying_def)

text \<open>What the loop does not touch.\<close>

lemma filter_fold_replace:
  assumes "\<And>x. P x \<Longrightarrow> \<not> is_KeySignature (snd x)"
    and "\<forall>k\<in>set ks. is_KeySignature (snd k)"
  shows "filter P (foldl (\<lambda>acc k. stream_insert (0, KeySignature (- 4)) (remove1 k acc)) acc ks)
           = filter P acc"
  using assms(2)
proof (induction ks arbitrary: acc)
  case Nil
  show ?case by simp
next
  case (Cons k ks)
  have nk: "\<not> P k" using assms(1)[of k] Cons.prems by auto
  have nn: "\<not> P (0, KeySignature (- 4))" using assms(1)[of "(0, KeySignature (- 4))"] by auto
  have "filter P (stream_insert (0, KeySignature (- 4)) (remove1 k acc)) = filter P acc"
    using nk nn by (simp add: filter_stream_insert filter_remove1 remove1_idem)
  with Cons show ?case by simp
qed

lemma filter_replaced:
  assumes "\<And>x. P x \<Longrightarrow> \<not> is_KeySignature (snd x)"
  shows "filter P (replaced els) = filter P els"
  unfolding replaced_def
  by (rule filter_fold_replace[OF assms]) (auto simp: qualifying_def)

lemma foldl_remove1_self: "foldl (\<lambda>acc k. remove1 k acc) ys ys = []"
  by (induction ys) simp_all

lemma qualifying_fold_replace:
  "filter qualifying (foldl (\<lambda>acc k. stream_insert (0, KeySignature (- 4)) (remove1 k acc)) acc ks)
     = foldl (\<lambda>acc k. remove1 k acc) (filter qualifying acc) ks"
proof (induction ks arbitrary: acc)
  case Nil
  show ?case by simp
next
  case (Cons k ks)
  have "\<not> qualifying (0, KeySignature (- 4))" by (simp add: qualifying_def)
  then have "filter qualifying (stream_insert (0, KeySignature (- 4)) (remove1 k acc))
      = remove1 k (filter qualifying acc)"
    by (simp add: filter_stream_insert filter_remove1)
  with Cons[of "stream_insert (0, KeySignature (- 4)) (remove1 k acc)"] show ?case by simp
qed

lemma qualifying_replaced: "filter qualifying (replaced els) = []"
  by (simp add: replaced_def qualifying_fold_replace foldl_remove1_self)

lemma replaced_quiet: "count_qualifying els = 0 \<Longrightarrow> replaced els = els"
  by (simp add: replaced_def count_qualifying_def)

lemma process_measure_eq:
  "process_measure m st =
     (if in_modulation st \<or> triggers m
      then (m\<lparr>elements := map (\<lambda>(off, e). (off, transpose_element e)) (replaced (elements m))\<rparr>,
            st\<lparr>in_modulation := True,
               key_sigs_replaced := key_sigs_replaced st + count_qualifying (elements m),
               measures_transposed := measures_transposed st + 1\<rparr>)
      else (m, st))"
proof (cases "in_modulation st \<or> triggers m")
  case True
  then show ?thesis
    by (auto simp: process_measure_def replace_key_sigs_eq triggers_def)
next
  case False
  then have z: "count_qualifying (elements m) = 0" by (simp add: triggers_def)
  with False show ?thesis
    by (simp add: process_measure_def replace_key_sigs_eq triggers_def replaced_quiet)
qed

lemma process_measures_modulated:
  "in_modulation st \<Longrightarrow>
   process_measures ms st =
     (map (\<lambda>m. m\<lparr>elements := map (\<lambda>(off, e). (off, transpose_element e)) (replaced (elements m))\<rparr>) ms,
      st\<lparr>key_sigs_replaced := key_sigs_replaced st + count_qualifying (concat (map elements ms)),
         measures_transposed := measures_transposed st + length ms\<rparr>)"
proof (induction ms arbitrary: st)
  case Nil
  then show ?case by (simp add: count_qualifying_def)
next
  case (Cons m ms)
  let ?st1 = "st\<lparr>in_modulation := True,
               key_sigs_replaced := key_sigs_replaced st + count_qualifying (elements m),
               measures_transposed := measures_transposed st + 1\<rparr>"
  have "in_modulation ?st1" by simp
  from Cons.IH[OF this] Cons.prems show ?case
    by (simp add: process_measure_eq count_qualifying_def)
qed

lemma process_measures_split:
  "\<not> in_modulation st \<Longrightarrow>
   process_measures ms st =
     (takeWhile (\<lambda>m. \<not> triggers m) ms
        @ map (\<lambda>m. m\<lparr>elements := map (\<lambda>(off, e). (off, transpose_element e)) (replaced (elements m))\<rparr>)
            (dropWhile (\<lambda>m. \<not> triggers m) ms),
      st\<lparr>in_modulation := list_ex triggers ms,
         key_sigs_replaced := key_sigs_replaced st + count_qualifying (concat (map elements ms)),
         measures_transposed := measures_transposed st + length (dropWhile (\<lambda>m. \<not> triggers m) ms)\<rparr>)"
proof (induction ms)
  case Nil
  then show ?case by (simp add: count_qualifying_def)
next
  case (Cons m ms)
  show ?case
  proof (cases "triggers m")
    case True
    let ?st1 = "st\<lparr>in_modulation := True,
               key_sigs_replaced := key_sigs_replaced st + count_qualifying (elements m),
               measures_transposed := measures_transposed st + 1\<rparr>"
    have "in_modulation ?st1" by simp
    from process_measures_modulated[OF this, of ms] True show ?thesis
      by (simp add: process_measure_eq count_qualifying_def)
  next
    case False
    then have "count_qualifying (elements m) = 0" by (simp add: triggers_def)
    with False Cons show ?thesis
      by (simp add: process_measure_eq count_qualifying_def)
  qed
qed

lemma process_part_eq:
  "process_part p =
     (takeWhile (\<lambda>m. \<not> triggers m) p
        @ map (\<lambda>m. m\<lparr>elements := map (\<lambda>(off, e). (off, transpose_element e)) (replaced (elements m))\<rparr>)
            (dropWhile (\<lambda>m. \<not> triggers m) p),
      (count_qualifying (concat (map elements p)), length (dropWhile (\<lambda>m. \<not> triggers m) p)))"
  by (simp add: process_part_def process_measures_split)

lemma takeWhile_map_dropWhile_nth:
  "j < length xs \<Longrightarrow>
   (takeWhile P xs @ map f (dropWhile P xs)) ! j = (if \<forall>t\<le>j. P (xs ! t) then xs ! j else f (xs ! j))"
proof (induction xs arbitrary: j)
  case Nil
  then show ?case by simp
next
  case (Cons x xs)
  show ?case
  proof (cases "P x")
    case False
    then have n: "\<not> (\<forall>t\<le>j. P ((x # xs) ! t))" by (auto intro: exI[of _ 0])
    have "(takeWhile P (x # xs) @ map f (dropWhile P (x # xs))) ! j = f ((x # xs) ! j)"
      using False Cons.prems nth_map[of j "x # xs" f] by simp
    then show ?thesis unfolding if_not_P[OF n] .
  next
    case True
    show ?thesis
    proof (cases j)
      case 0
      with True show ?thesis by simp
    next
      case (Suc k)
      have "(\<forall>t\<le>Suc k. P ((x # xs) ! t)) = (\<forall>t\<le>k. P (xs ! t))"
      proof
        assume a: "\<forall>t\<le>Suc k. P ((x # xs) ! t)"
        show "\<forall>t\<le>k. P (xs ! t)"
        proof (intro allI impI)
          fix t assume "t \<le> k"
          with a have "P ((x # xs) ! Suc t)" by blast
          then show "P (xs ! t)" by simp
        qed
      next
        assume a: "\<forall>t\<le>k. P (xs ! t)"
        show "\<forall>t\<le>Suc k. P ((x # xs) ! t)"
        proof (intro allI impI)
          fix t assume "t \<le> Suc k"
          with a True show "P ((x # xs) ! t)" by (cases t) auto
        qed
      qed
      with Cons True Suc show ?thesis by auto
    qed
  qed
qed

lemma process_part_nth:
  "j < length p \<Longrightarrow>
   fst (process_part p) ! j =
     (if \<forall>t\<le>j. \<not> triggers (p ! t) then p ! j else transposed_measure (p ! j))"
  unfolding process_part_eq fst_conv transposed_measure_def[symmetric, abs_def]
  using takeWhile_map_dropWhile_nth[of j p "\<lambda>m. \<not> triggers m" transposed_measure]
  by (simp add: transposed_measure_def[abs_def])

lemma remove_key_change_nth:
  "i < length score \<Longrightarrow> fst (remove_key_change score) ! i = fst (process_part (score ! i))"
  by (simp add: remove_key_change_def)

lemma pitches_transposed_list:
  "map (\<lambda>x. case snd x of Note p l \<Rightarrow> [p] | Chord ps l \<Rightarrow> ps | _ \<Rightarrow> [])
     (filter (\<lambda>x. is_Note (snd x) \<or> is_Chord (snd x))
        (map (\<lambda>(off, e). (off, transpose_element e)) xs)) =
   map (map (\<lambda>p. p - 1))
     (map (\<lambda>x. case snd x of Note p l \<Rightarrow> [p] | Chord ps l \<Rightarrow> ps | _ \<Rightarrow> [])
        (filter (\<lambda>x. is_Note (snd x) \<or> is_Chord (snd x)) xs))"
proof (induction xs)
  case Nil
  show ?case by simp
next
  case (Cons x xs)
  obtain off e where x: "x = (off, e)" by (cases x)
  from Cons show ?case unfolding x
    by (cases e) (simp_all add: transpose_interval_def)
qed

lemma pitched_transposed:
  "filter (\<lambda>x. is_Note (snd x) \<or> is_Chord (snd x)) (map (\<lambda>(off, e). (off, transpose_element e)) xs)
     = map (\<lambda>(off, e). (off, transpose_element e)) (filter (\<lambda>x. is_Note (snd x) \<or> is_Chord (snd x)) xs)"
proof (induction xs)
  case Nil
  show ?case by simp
next
  case (Cons x xs)
  obtain off e where x: "x = (off, e)" by (cases x)
  from Cons show ?case unfolding x by (cases e) simp_all
qed

lemma measure_pitches_transposed:
  "measure_pitches (transposed_measure m) = map (map (\<lambda>p. p - 1)) (measure_pitches m)"
proof -
  have f: "filter (\<lambda>x. is_Note (snd x) \<or> is_Chord (snd x)) (replaced (elements m))
         = filter (\<lambda>x. is_Note (snd x) \<or> is_Chord (snd x)) (elements m)"
    by (rule filter_replaced) (auto simp: element.disc_eq_case split: element.splits)
  have "measure_pitches (transposed_measure m) =
      map (map (\<lambda>p. p - 1))
       (map (\<lambda>x. case snd x of Note p l \<Rightarrow> [p] | Chord ps l \<Rightarrow> ps | _ \<Rightarrow> [])
         (filter (\<lambda>x. is_Note (snd x) \<or> is_Chord (snd x)) (replaced (elements m))))"
    unfolding measure_pitches_def transposed_measure_def
    using pitches_transposed_list[of "replaced (elements m)"] by simp
  then show ?thesis unfolding f measure_pitches_def .
qed

text \<open>Key signatures after the loop body.\<close>

lemma filter_key_sigs_transposed:
  assumes "\<And>x. P x \<Longrightarrow> is_KeySignature (snd x)"
  shows "filter P (map (\<lambda>(off, e). (off, transpose_element e)) xs) = filter P xs"
proof (induction xs)
  case Nil
  show ?case by simp
next
  case (Cons x xs)
  obtain off e where x: "x = (off, e)" by (cases x)
  have "P (off, transpose_element e) = P (off, e)"
  proof (cases e)
    case (Note p l)
    with assms[of "(off, Note (p + transpose_interval) l)"] assms[of "(off, Note p l)"]
    show ?thesis by auto
  next
    case (Chord ps l)
    with assms[of "(off, Chord (map (\<lambda>p. p + transpose_interval) ps) l)"] assms[of "(off, Chord ps l)"]
    show ?thesis by auto
  qed simp_all
  moreover have "transpose_element e = e" if "P (off, e)"
    using assms[OF that] by (cases e) simp_all
  ultimately show ?case using Cons unfolding x by auto
qed

lemma filter_fold_remove:
  assumes "\<not> P (0, KeySignature (- 4))"
  shows "filter P (foldl (\<lambda>acc k. stream_insert (0, KeySignature (- 4)) (remove1 k acc)) acc ks)
     = foldl (\<lambda>acc k. remove1 k acc) (filter P acc) ks"
proof (induction ks arbitrary: acc)
  case Nil
  show ?case by simp
next
  case (Cons k ks)
  have "filter P (stream_insert (0, KeySignature (- 4)) (remove1 k acc)) = remove1 k (filter P acc)"
    using assms by (simp add: filter_stream_insert filter_remove1)
  with Cons[of "stream_insert (0, KeySignature (- 4)) (remove1 k acc)"] show ?case by simp
qed

lemma foldl_remove1_filter:
  "\<forall>y\<in>set ys. \<not> Q y \<Longrightarrow>
   foldl (\<lambda>acc k. remove1 k acc) (ys @ filter P xs) (filter Q xs) = ys @ filter (\<lambda>x. P x \<and> \<not> Q x) xs"
proof (induction xs arbitrary: ys)
  case Nil
  show ?case by simp
next
  case (Cons x xs)
  show ?case
  proof (cases "Q x")
    case q: True
    then have nys: "x \<notin> set ys" using Cons.prems by auto
    show ?thesis
    proof (cases "P x")
      case True
      have "remove1 x (ys @ x # filter P xs) = ys @ filter P xs"
        using nys by (simp add: remove1_append)
      with q True Cons.IH[OF Cons.prems] show ?thesis by simp
    next
      case False
      then have "x \<notin> set (ys @ filter P xs)" using nys by simp
      then have "remove1 x (ys @ filter P xs) = ys @ filter P xs" by (rule remove1_idem)
      with q False Cons.IH[OF Cons.prems] show ?thesis by simp
    qed
  next
    case nq: False
    show ?thesis
    proof (cases "P x")
      case True
      from nq Cons.prems have "\<forall>y\<in>set (ys @ [x]). \<not> Q y" by simp
      from Cons.IH[OF this] nq True show ?thesis by simp
    next
      case False
      with nq Cons.IH[OF Cons.prems] show ?thesis by simp
    qed
  qed
qed

lemma untouched_replaced:
  "filter (\<lambda>x. x \<noteq> (0, KeySignature (- 4))) (getKeySignatures (replaced els)) =
     filter (\<lambda>x. \<not> qualifying x \<and> x \<noteq> (0, KeySignature (- 4))) (getKeySignatures els)"
proof -
  let ?P = "\<lambda>x. is_KeySignature (snd x) \<and> x \<noteq> (0, KeySignature (- 4))"
  have "filter ?P (replaced els) = foldl (\<lambda>acc k. remove1 k acc) ([] @ filter ?P els) (filter qualifying els)"
    unfolding replaced_def by (simp add: filter_fold_remove)
  also have "\<dots> = [] @ filter (\<lambda>x. ?P x \<and> \<not> qualifying x) els"
    by (rule foldl_remove1_filter) simp
  finally show ?thesis
    by (simp add: getKeySignatures_def conj_commute conj_left_commute)
qed

lemma count_new_fold:
  "\<forall>k\<in>set ks. k \<noteq> (0, KeySignature (- 4)) \<Longrightarrow>
   length (filter (\<lambda>x. x = (0, KeySignature (- 4)))
     (foldl (\<lambda>acc k. stream_insert (0, KeySignature (- 4)) (remove1 k acc)) acc ks))
   = length (filter (\<lambda>x. x = (0, KeySignature (- 4))) acc) + length ks"
proof (induction ks arbitrary: acc)
  case Nil
  show ?case by simp
next
  case (Cons k ks)
  then have k: "k \<noteq> (0, KeySignature (- 4))" by simp
  have "length (filter (\<lambda>x. x = (0, KeySignature (- 4)))
          (stream_insert (0, KeySignature (- 4)) (remove1 k acc)))
      = Suc (length (filter (\<lambda>x. x = (0, KeySignature (- 4))) acc))"
    using k by (simp add: filter_stream_insert_in filter_remove1 remove1_idem)
  with Cons show ?case by simp
qed

lemma count_new_replaced:
  "length (filter (\<lambda>x. x = (0, KeySignature (- 4))) (replaced els))
     = length (filter (\<lambda>x. x = (0, KeySignature (- 4))) els) + count_qualifying els"
  unfolding replaced_def count_qualifying_def
  by (rule count_new_fold) (auto simp: qualifying_def)

lemma key_signatures_transposed_measure:
  "filter qualifying (elements (transposed_measure m)) = [] \<and>
   filter (\<lambda>x. x \<noteq> (0, KeySignature (- 4))) (getKeySignatures (elements (transposed_measure m))) =
     filter (\<lambda>x. \<not> qualifying x \<and> x \<noteq> (0, KeySignature (- 4))) (getKeySignatures (elements m)) \<and>
   length (filter (\<lambda>x. x = (0, KeySignature (- 4))) (elements (transposed_measure m)))
     = length (filter (\<lambda>x. x = (0, KeySignature (- 4))) (elements m)) + count_qualifying (elements m)"
proof -
  have a: "filter qualifying (map (\<lambda>(off, e). (off, transpose_element e)) xs) = filter qualifying xs" for xs
    by (rule filter_key_sigs_transposed) (simp add: qualifying_def)
  have b: "getKeySignatures (map (\<lambda>(off, e). (off, transpose_element e)) xs) = getKeySignatures xs" for xs
    unfolding getKeySignatures_def by (rule filter_key_sigs_transposed) simp
  have c: "filter (\<lambda>x. x = (0, KeySignature (- 4))) (map (\<lambda>(off, e). (off, transpose_element e)) xs)
         = filter (\<lambda>x. x = (0, KeySignature (- 4))) xs" for xs
    by (rule filter_key_sigs_transposed) simp
  show ?thesis
    by (simp add: transposed_measure_def a b c qualifying_replaced untouched_replaced count_new_replaced)
qed

lemma key_signatures_quiet_measure:
  assumes "\<not> triggers m"
  shows "filter qualifying (elements m) = [] \<and>
   filter (\<lambda>x. x \<noteq> (0, KeySignature (- 4))) (getKeySignatures (elements m)) =
     filter (\<lambda>x. \<not> qualifying x \<and> x \<noteq> (0, KeySignature (- 4))) (getKeySignatures (elements m)) \<and>
   length (filter (\<lambda>x. x = (0, KeySignature (- 4))) (elements m))
     = length (filter (\<lambda>x. x = (0, KeySignature (- 4))) (elements m)) + count_qualifying (elements m)"
proof -
  from assms have z: "filter qualifying (elements m) = []"
    by (simp add: triggers_def count_qualifying_def)
  then have "\<forall>x\<in>set (elements m). \<not> qualifying x" by (simp add: filter_empty_conv)
  then have "\<forall>x\<in>set (getKeySignatures (elements m)). \<not> qualifying x"
    by (simp add: getKeySignatures_def)
  then have "filter (\<lambda>x. \<not> qualifying x \<and> x \<noteq> (0, KeySignature (- 4))) (getKeySignatures (elements m))
     = filter (\<lambda>x. x \<noteq> (0, KeySignature (- 4))) (getKeySignatures (elements m))"
    by (auto intro: filter_cong)
  with z show ?thesis by (simp add: count_qualifying_def)
qed

lemma count_qualifying_transposed:
  "count_qualifying (map (\<lambda>(off, e). (off, transpose_element e)) (replaced els)) = 0"
proof -
  have "filter qualifying (map (\<lambda>(off, e). (off, transpose_element e)) (replaced els))
      = filter qualifying (replaced els)"
    by (rule filter_key_sigs_transposed) (simp add: qualifying_def)
  then show ?thesis by (simp add: count_qualifying_def qualifying_replaced)
qed

lemma process_part_quiet:
  assumes "\<forall>m\<in>set p. \<not> triggers m"
  shows "process_part p = (p, (0, 0))"
proof -
  from assms have tw: "takeWhile (\<lambda>m. \<not> triggers m) p = p"
       and dw: "dropWhile (\<lambda>m. \<not> triggers m) p = []" by simp_all
  from assms have "\<forall>m\<in>set p. filter qualifying (elements m) = []"
    by (simp add: triggers_def count_qualifying_def)
  then have "filter qualifying (concat (map elements p)) = []"
    by (induction p) simp_all
  then have "count_qualifying (concat (map elements p)) = 0" by (simp add: count_qualifying_def)
  then show ?thesis unfolding process_part_eq tw dw by simp
qed

lemma process_part_output_quiet: "\<forall>m\<in>set (fst (process_part p)). \<not> triggers m"
proof -
  have "\<not> triggers m" if "m \<in> set (takeWhile (\<lambda>m. \<not> triggers m) p)" for m
    using set_takeWhileD[OF that] by simp
  moreover have "\<not> triggers (m\<lparr>elements := map (\<lambda>(off, e). (off, transpose_element e)) (replaced (elements m))\<rparr>)" for m
    by (simp add: triggers_def count_qualifying_transposed)
  ultimately show ?thesis unfolding process_part_eq fst_conv by auto
qed

subsection \<open>Transposition from the trigger measure on\<close>

text \<open>
  Claim C1. In every part, a measure that holds a key signature of five sharps or more
  triggers modulation: that measure and every later measure of the part have the pitch of
  every Note and every pitch of every Chord lowered by exactly one semitone. A measure
  with no trigger in it or before it in the part keeps its pitches.
\<close>

theorem remove_key_change_shifts_from_trigger:
  assumes "i < length score" and "j < length (score ! i)"
  shows "(\<forall>t. t \<le> j \<and> triggers (score ! i ! t) \<longrightarrow>
            measure_pitches (fst (remove_key_change score) ! i ! j)
              = map (map (\<lambda>p. p - 1)) (measure_pitches (score ! i ! j)))
       \<and> ((\<forall>t\<le>j. \<not> triggers (score ! i ! t)) \<longrightarrow>
            measure_pitches (fst (remove_key_change score) ! i ! j) = measure_pitches (score ! i ! j))"
  using assms
  by (auto simp: remove_key_change_nth process_part_nth measure_pitches_transposed)

theorem remove_key_change_shifts_from_trigger_witness:
  "triggers (ex_score ! 0 ! 1) \<and>
   measure_pitches (fst (remove_key_change ex_score) ! 0 ! 1) = [[65]] \<and>
   measure_pitches (fst (remove_key_change ex_score) ! 0 ! 2) = [[67]] \<and>
   measure_pitches (fst (remove_key_change ex_score) ! 0 ! 0) = [[60], [60, 64, 67]]"
proof -
  have i: "0 < length ex_score" by (simp add: ex_score_def)
  have j0: "0 < length (ex_score ! 0)" and j1: "1 < length (ex_score ! 0)"
    and j2: "2 < length (ex_score ! 0)" by (simp_all add: ex_score_def)
  have t: "triggers (ex_score ! 0 ! 1)"
    by (simp add: ex_score_def triggers_def count_qualifying_def qualifying_def)
  have n: "\<forall>t\<le>0. \<not> triggers (ex_score ! 0 ! t)"
    by (simp add: ex_score_def triggers_def count_qualifying_def qualifying_def)
  have t1: "1 \<le> (1::nat) \<and> triggers (ex_score ! 0 ! 1)"
    and t2: "1 \<le> (2::nat) \<and> triggers (ex_score ! 0 ! 1)" using t by simp_all
  have "measure_pitches (fst (remove_key_change ex_score) ! 0 ! 1)
          = map (map (\<lambda>p. p - 1)) (measure_pitches (ex_score ! 0 ! 1))"
    using remove_key_change_shifts_from_trigger[OF i j1] t1 by blast
  moreover have "measure_pitches (fst (remove_key_change ex_score) ! 0 ! 2)
          = map (map (\<lambda>p. p - 1)) (measure_pitches (ex_score ! 0 ! 2))"
    using remove_key_change_shifts_from_trigger[OF i j2] t2 by blast
  moreover have "measure_pitches (fst (remove_key_change ex_score) ! 0 ! 0)
          = measure_pitches (ex_score ! 0 ! 0)"
    using remove_key_change_shifts_from_trigger[OF i j0] n by blast
  ultimately show ?thesis using t
    by (simp add: ex_score_def measure_pitches_def)
qed

subsection \<open>Key signatures\<close>

text \<open>
  Claim C2, as the source has it. In every measure of the score the function hands to
  the writer, no key signature of five sharps or more is left; for each one removed, one
  key signature of four flats is inserted at offset 0 of the same measure, whatever the
  count of sharps was (the number of elements equal to \<open>(0, KeySignature (- 4))\<close> grows
  by the number of key signatures removed); every other key signature of the measure is
  left untouched, offsets and order included.
\<close>

theorem remove_key_change_key_signatures:
  assumes "i < length score" and "j < length (score ! i)"
  shows "filter qualifying (elements (fst (remove_key_change score) ! i ! j)) = [] \<and>
    filter (\<lambda>x. x \<noteq> (0, KeySignature (- 4)))
        (getKeySignatures (elements (fst (remove_key_change score) ! i ! j))) =
      filter (\<lambda>x. \<not> qualifying x \<and> x \<noteq> (0, KeySignature (- 4)))
        (getKeySignatures (elements (score ! i ! j))) \<and>
    length (filter (\<lambda>x. x = (0, KeySignature (- 4))) (elements (fst (remove_key_change score) ! i ! j)))
      = length (filter (\<lambda>x. x = (0, KeySignature (- 4))) (elements (score ! i ! j)))
        + count_qualifying (elements (score ! i ! j))"
proof (cases "\<forall>t\<le>j. \<not> triggers (score ! i ! t)")
  case True
  then have q: "\<not> triggers (score ! i ! j)" by simp
  have "fst (remove_key_change score) ! i ! j = score ! i ! j"
    using assms True by (simp add: remove_key_change_nth process_part_nth)
  then show ?thesis using key_signatures_quiet_measure[OF q] by simp
next
  case False
  have "fst (remove_key_change score) ! i ! j = transposed_measure (score ! i ! j)"
    using assms False by (auto simp: remove_key_change_nth process_part_nth)
  then show ?thesis using key_signatures_transposed_measure[of "score ! i ! j"] by simp
qed

theorem remove_key_change_key_signatures_witness:
  "getKeySignatures (elements (ex_offset0 ! 0 ! 0)) = [(0, KeySignature 6), (0, KeySignature 1)] \<and>
   filter qualifying (elements (fst (remove_key_change ex_offset0) ! 0 ! 0)) = [] \<and>
   filter (\<lambda>x. x \<noteq> (0, KeySignature (- 4)))
     (getKeySignatures (elements (fst (remove_key_change ex_offset0) ! 0 ! 0))) = [(0, KeySignature 1)] \<and>
   length (filter (\<lambda>x. x = (0, KeySignature (- 4)))
     (elements (fst (remove_key_change ex_offset0) ! 0 ! 0))) = 1"
proof -
  have i: "0 < length ex_offset0" by (simp add: ex_offset0_def)
  have j: "0 < length (ex_offset0 ! 0)" by (simp add: ex_offset0_def)
  show ?thesis
    using remove_key_change_key_signatures[OF i j]
    by (simp add: ex_offset0_def getKeySignatures_def count_qualifying_def qualifying_def)
qed

text \<open>The loop of the source on that measure: the new key signature comes after the clef
  and the key signature already at offset 0, and before the time signature.\<close>

lemma remove_key_change_example_offset0:
  "elements (fst (remove_key_change ex_offset0) ! 0 ! 0) =
     [(0, Other ''TrebleClef'' 0), (0, KeySignature 1), (0, KeySignature (- 4)),
      (0, Other ''TimeSignature'' 4), (0, Note 65 None)]"
  by (simp add: ex_offset0_def remove_key_change_def process_part_def process_measure_def
      getKeySignatures_def sorts_after_def transpose_interval_def)

text \<open>
  The replacement does not take the place of the key signature it replaces when that one
  stands later in the measure: a key signature of six sharps at offset 2 is answered by
  four flats at offset 0.
\<close>

theorem replacement_not_in_place_counterexample:
  "getKeySignatures (elements (ex_midmeasure ! 0 ! 0)) = [(2, KeySignature 6)] \<and>
   getKeySignatures (elements (fst (remove_key_change ex_midmeasure) ! 0 ! 0)) = [(0, KeySignature (- 4))]"
  by (simp add: ex_midmeasure_def remove_key_change_def process_part_def process_measure_def
      getKeySignatures_def)

subsection \<open>Measures and parts without a trigger\<close>

text \<open>
  Claim C3. The modulation flag belongs to one part and starts false: a measure with no
  key signature of five sharps or more in it or in an earlier measure of its part is left
  as it is, pitches included, and a part with no such key signature at all is left as it
  is, whatever the other parts of the score hold.
\<close>

theorem remove_key_change_untriggered_unchanged:
  assumes "i < length score"
  shows "(\<forall>j < length (score ! i). (\<forall>t\<le>j. \<not> triggers (score ! i ! t)) \<longrightarrow>
            fst (remove_key_change score) ! i ! j = score ! i ! j)
       \<and> ((\<forall>j < length (score ! i). \<not> triggers (score ! i ! j)) \<longrightarrow>
            fst (remove_key_change score) ! i = score ! i)"
proof (intro conjI allI impI)
  fix j assume "j < length (score ! i)" "\<forall>t\<le>j. \<not> triggers (score ! i ! t)"
  with assms show "fst (remove_key_change score) ! i ! j = score ! i ! j"
    by (simp add: remove_key_change_nth process_part_nth)
next
  assume a: "\<forall>j < length (score ! i). \<not> triggers (score ! i ! j)"
  then have "\<forall>m\<in>set (score ! i). \<not> triggers m" by (auto simp: in_set_conv_nth)
  then have tw: "takeWhile (\<lambda>m. \<not> triggers m) (score ! i) = score ! i"
       and dw: "dropWhile (\<lambda>m. \<not> triggers m) (score ! i) = []" by simp_all
  show "fst (remove_key_change score) ! i = score ! i"
    unfolding remove_key_change_nth[OF assms] process_part_eq fst_conv tw dw by simp
qed

theorem remove_key_change_untriggered_unchanged_witness:
  "triggers (ex_score ! 0 ! 1) \<and>
   fst (remove_key_change ex_score) ! 1 = ex_score ! 1 \<and>
   fst (remove_key_change ex_score) ! 1 ! 1 = ex_score ! 1 ! 1"
proof -
  have i: "1 < length ex_score" by (simp add: ex_score_def)
  have l: "length (ex_score ! 1) = 2" by (simp add: ex_score_def)
  have q0: "\<not> triggers (ex_score ! 1 ! 0)" and q1: "\<not> triggers (ex_score ! 1 ! 1)"
    by (simp_all add: ex_score_def triggers_def count_qualifying_def qualifying_def)
  have n: "\<forall>j < length (ex_score ! 1). \<not> triggers (ex_score ! 1 ! j)"
  proof (intro allI impI)
    fix j assume "j < length (ex_score ! 1)"
    then have "j = 0 \<or> j = 1" using l by auto
    with q0 q1 show "\<not> triggers (ex_score ! 1 ! j)" by auto
  qed
  have n1: "\<forall>t\<le>1. \<not> triggers (ex_score ! 1 ! t)"
  proof (intro allI impI)
    fix t :: nat assume "t \<le> 1"
    then have "t = 0 \<or> t = 1" by auto
    with q0 q1 show "\<not> triggers (ex_score ! 1 ! t)" by auto
  qed
  have j: "1 < length (ex_score ! 1)" using l by simp
  have "fst (remove_key_change ex_score) ! 1 = ex_score ! 1"
    using remove_key_change_untriggered_unchanged[OF i] n by blast
  moreover have "fst (remove_key_change ex_score) ! 1 ! 1 = ex_score ! 1 ! 1"
    using remove_key_change_untriggered_unchanged[OF i] j n1 by blast
  moreover have "triggers (ex_score ! 0 ! 1)"
    by (simp add: ex_score_def triggers_def count_qualifying_def qualifying_def)
  ultimately show ?thesis by simp
qed

subsection \<open>A second run\<close>

text \<open>
  Claim C4. Running the transform on a score it has already transformed changes nothing:
  no key signature of five sharps or more is left (four flats is below five sharps), so
  the second run replaces no key signature, transposes no measure and returns the score
  of the first run.
\<close>

theorem remove_key_change_rerun_noop:
  "remove_key_change (fst (remove_key_change score)) =
     (fst (remove_key_change score), map (\<lambda>p. (0, 0)) score)"
  by (simp add: remove_key_change_def process_part_quiet[OF process_part_output_quiet])

subsection \<open>The report\<close>

text \<open>
  Claim C6. For every part, the count of key signatures replaced is the number of key
  signatures of five sharps or more in the part, a second and later one included, and the
  count of measures transposed is the number of measures from the first trigger measure
  to the end of the part.
\<close>

theorem remove_key_change_report:
  "snd (remove_key_change score) =
     map (\<lambda>p. (length (filter (\<lambda>x. is_KeySignature (snd x) \<and> 5 \<le> sharps (snd x)) (concat (map elements p))),
               length (dropWhile (\<lambda>m. \<not> triggers m) p))) score"
  by (simp add: remove_key_change_def process_part_eq count_qualifying_def qualifying_def[abs_def])

theorem remove_key_change_report_witness:
  "snd (remove_key_change ex_score) = [(1, 2), (0, 0)]"
  using remove_key_change_report[of ex_score]
  by (simp add: ex_score_def triggers_def count_qualifying_def qualifying_def)

subsection \<open>Empty scopes\<close>

text \<open>
  Claim C7. The transform has no failing branch on empty input: a score of no parts comes
  back as it is with no report line, and a part of no measures, wherever it stands in a
  score, comes back empty with zero key signatures replaced and zero measures transposed.
  The function has no raise of its own, so the model is a total function and returning a
  value is returning normally.
\<close>

theorem remove_key_change_empty_scopes:
  "remove_key_change [] = ([], []) \<and>
   remove_key_change (ps @ [] # qs) =
     (fst (remove_key_change ps) @ [] # fst (remove_key_change qs),
      snd (remove_key_change ps) @ (0, 0) # snd (remove_key_change qs))"
  by (simp add: remove_key_change_def process_part_def)

section \<open>Properties of add\_lyrics\<close>

subsection \<open>The assignment loop as one pass\<close>

lemma notes_list_eq: "notes_list flat = filter (\<lambda>k. is_Note (snd (flat ! k))) [0..<length flat]"
  by (auto simp: notes_list_def intro: filter_cong)

lemma notes_list_Cons:
  "notes_list (x # xs) = (if is_Note (snd x) then [0] else []) @ map Suc (notes_list xs)"
proof -
  have "[0..<length (x # xs)] = 0 # map Suc [0..<length xs]"
    by (simp add: upt_conv_Cons map_Suc_upt del: upt_Suc)
  then show ?thesis
    by (simp add: notes_list_eq filter_map comp_def del: upt_Suc)
qed

lemma assign_lyrics_fold:
  "assign_lyrics i syl refs flat =
     fold (\<lambda>(r, l) fl. fl[r := (fst (fl ! r), set_lyric l (snd (fl ! r)))]) (zip (drop i refs) syl) flat"
proof (induction syl arbitrary: i flat)
  case Nil
  show ?case by simp
next
  case (Cons l syl)
  show ?case
  proof (cases "i < length refs")
    case True
    then have "drop i refs = refs ! i # drop (Suc i) refs" by (simp add: Cons_nth_drop_Suc)
    with True Cons show ?thesis by simp
  next
    case False
    then have "drop i refs = []" "drop (Suc i) refs = []" by simp_all
    with False Cons[of "Suc i" flat] show ?thesis by simp
  qed
qed

lemma fold_update_shift:
  "fold (\<lambda>(r, l) fl. fl[r := (fst (fl ! r), set_lyric l (snd (fl ! r)))]) (zip (map Suc rs) ls) (x # xs) =
   x # fold (\<lambda>(r, l) fl. fl[r := (fst (fl ! r), set_lyric l (snd (fl ! r)))]) (zip rs ls) xs"
proof (induction rs arbitrary: ls xs)
  case Nil
  show ?case by simp
next
  case (Cons r rs)
  then show ?case by (cases ls) simp_all
qed

lemma assign_lyrics_overlay:
  "assign_lyrics 0 syl (notes_list flat) flat = overlay syl flat"
  unfolding assign_lyrics_fold drop_0
proof (induction flat arbitrary: syl)
  case Nil
  show ?case by (simp add: notes_list_eq)
next
  case (Cons x xs)
  show ?case
  proof (cases "is_Note (snd x)")
    case False
    with Cons show ?thesis by (simp add: notes_list_Cons fold_update_shift)
  next
    case True
    show ?thesis
    proof (cases syl)
      case Nil
      with True show ?thesis by simp
    next
      case (Cons l ls)
      with True Cons.IH[of ls] show ?thesis by (simp add: notes_list_Cons fold_update_shift)
    qed
  qed
qed

lemma length_overlay: "length (overlay ls xs) = length xs"
  by (induction xs arbitrary: ls) (auto split: list.splits)

lemma erase_overlay: "map erase_lyric (overlay ls xs) = map erase_lyric xs"
proof (induction xs arbitrary: ls)
  case Nil
  show ?case by simp
next
  case (Cons x xs)
  obtain off e where x: "x = (off, e)" by (cases x)
  from Cons show ?case unfolding x by (cases e; cases ls) simp_all
qed

lemma notes_overlay:
  "filter is_Note (map snd (overlay ls xs)) =
     map (\<lambda>(l, n). set_lyric l n) (zip ls (filter is_Note (map snd xs)))
       @ drop (length ls) (filter is_Note (map snd xs))"
proof (induction xs arbitrary: ls)
  case Nil
  show ?case by simp
next
  case (Cons x xs)
  obtain off e where x: "x = (off, e)" by (cases x)
  from Cons show ?case unfolding x by (cases e; cases ls) simp_all
qed

lemma flatten_measures_of:
  "length fl = length (flatten p) \<Longrightarrow> flatten (measures_of p fl) = fl"
proof (induction p arbitrary: fl)
  case Nil
  then show ?case by (simp add: flatten_def)
next
  case (Cons m ms)
  then have "length (drop (length (elements m)) fl) = length (flatten ms)"
    by (simp add: flatten_def)
  from Cons.IH[OF this] Cons.prems show ?case by (simp add: flatten_def)
qed

lemma strip_measures_of:
  "strip_note_lyrics (measures_of p fl) = measures_of p (map erase_lyric fl)"
  by (induction p arbitrary: fl) (simp_all add: strip_note_lyrics_def take_map drop_map)

lemma measures_of_flatten: "measures_of p (flatten p) = p"
  by (induction p) (simp_all add: flatten_def)

lemma measures_of_erase_flatten: "measures_of p (map erase_lyric (flatten p)) = strip_note_lyrics p"
  using strip_measures_of[of p "flatten p"] by (simp add: measures_of_flatten)

lemma lyrics_map2_set_lyric:
  "\<forall>n\<in>set ns. is_Note n \<Longrightarrow>
   map lyric_of (map (\<lambda>(l, n). set_lyric l n) (zip ls ns)) = map (Some \<circ> lyric_setter) (take (length ns) ls)"
proof (induction ns arbitrary: ls)
  case Nil
  show ?case by simp
next
  case (Cons n ns)
  then obtain p l where n: "n = Note p l" by (cases n) auto
  from Cons show ?case unfolding n by (cases ls) simp_all
qed

text \<open>The loop of the source, run on an example.\<close>

lemma add_lyrics_with_example:
  "add_lyrics_with [''a'', ''b-''] ex_melody =
    [[\<lparr>number = 1, elements = [(0, Note 60 (Some ''a'')), (1, Chord [60, 64] None), (2, Note 62 (Some ''b''))]\<rparr>,
      \<lparr>number = 2, elements = [(0, Other ''Rest'' 20), (1, Note 64 None)]\<rparr>],
     [\<lparr>number = 1, elements = [(0, Note 48 None)]\<rparr>]]"
  by (simp add: add_lyrics_with_def add_lyrics_part_def ex_melody_def flatten_def notes_list_def
      lyric_setter_def lyric_text_def)

subsection \<open>The overlay\<close>

text \<open>
  Claim C5, as the source has it. add\_lyrics runs the overlay with the table of the
  source, and only the first part of the score is changed. In it, nothing but the lyric
  of Notes changes: measures, offsets, pitches, Chords (their lyric field included) and
  every other element stay as they are. Of the Notes of the part in traversal order, the
  i-th has its lyric set from \<open>syllables ! i\<close> for every i below the smaller of the two
  lengths (the pairing \<open>zip\<close> makes); the lyric it then carries is what the setter of the
  library keeps of the syllable, its text without a hyphen at the start or the end. The
  Notes from index \<open>length syllables\<close> on are left as they were, with the lyric they had
  if they had one; syllables beyond the number of Notes are dropped, and there is no
  failing branch.
\<close>

theorem add_lyrics_overlay:
  "add_lyrics score = add_lyrics_with lyrics score \<and>
   add_lyrics_with syllables [] = [] \<and>
   add_lyrics_with syllables (p # ps) = add_lyrics_part syllables p # ps \<and>
   strip_note_lyrics (add_lyrics_part syllables p) = strip_note_lyrics p \<and>
   part_notes (add_lyrics_part syllables p) =
     map (\<lambda>(l, n). set_lyric l n) (zip syllables (part_notes p))
       @ drop (length syllables) (part_notes p) \<and>
   map lyric_of (part_notes (add_lyrics_part syllables p)) =
     map (Some \<circ> lyric_setter) (take (length (part_notes p)) syllables)
       @ drop (length syllables) (map lyric_of (part_notes p))"
proof -
  have fl: "flatten (add_lyrics_part syllables p) = overlay syllables (flatten p)"
    by (simp add: add_lyrics_part_def assign_lyrics_overlay flatten_measures_of length_overlay)
  have s: "strip_note_lyrics (add_lyrics_part syllables p) = strip_note_lyrics p"
    by (simp add: add_lyrics_part_def assign_lyrics_overlay strip_measures_of erase_overlay
        measures_of_erase_flatten)
  have n: "part_notes (add_lyrics_part syllables p) =
     map (\<lambda>(l, n). set_lyric l n) (zip syllables (part_notes p))
       @ drop (length syllables) (part_notes p)"
    unfolding part_notes_def fl by (rule notes_overlay)
  have "\<forall>n\<in>set (part_notes p). is_Note n" by (simp add: part_notes_def)
  from lyrics_map2_set_lyric[OF this, of syllables]
  have l: "map lyric_of (part_notes (add_lyrics_part syllables p)) =
     map (Some \<circ> lyric_setter) (take (length (part_notes p)) syllables)
       @ drop (length syllables) (map lyric_of (part_notes p))"
    unfolding n by (simp add: drop_map)
  from s n l show ?thesis by (simp add: add_lyrics_with_def add_lyrics_def)
qed

theorem add_lyrics_overlay_witness:
  "map lyric_of (part_notes (add_lyrics ex_tune ! 0)) =
     [Some ''When'', Some ''peace,'', Some ''like'', Some ''a'', Some ''riv'', Some [], Some ''er,''] \<and>
   part_notes (add_lyrics_with [''a'', ''b'', ''c'', ''d'', ''e''] ex_melody ! 0) =
     [Note 60 (Some ''a''), Note 62 (Some ''b''), Note 64 (Some ''c'')] \<and>
   part_notes (add_lyrics_with [''a''] ex_melody ! 0) =
     [Note 60 (Some ''a''), Note 62 (Some ''la''), Note 64 None] \<and>
   add_lyrics_with [''a'', ''b'', ''c'', ''d'', ''e''] ex_melody ! 1 = ex_melody ! 1"
  using add_lyrics_overlay[of ex_tune lyrics "ex_tune ! 0" "tl ex_tune"]
    add_lyrics_overlay[of ex_melody "[''a'', ''b'', ''c'', ''d'', ''e'']" "ex_melody ! 0" "tl ex_melody"]
    add_lyrics_overlay[of ex_melody "[''a'']" "ex_melody ! 0" "tl ex_melody"]
  by (simp add: ex_melody_def ex_tune_def part_notes_def flatten_def lyrics_def
      lyric_setter_def lyric_text_def)

text \<open>
  A Note beyond the syllables is not left without a lyric when it had one, and a Note
  given the syllable \<^verbatim>\<open>-\<close> carries the empty text.
\<close>

theorem add_lyrics_remaining_lyric_counterexample:
  "lyric_of (part_notes (ex_melody ! 0) ! 1) = Some ''la'' \<and>
   lyric_of (part_notes (add_lyrics_with [''a''] ex_melody ! 0) ! 1) = Some ''la'' \<and>
   lyric_of (part_notes (add_lyrics_with [''-''] ex_melody ! 0) ! 0) = Some []"
  by (simp add: add_lyrics_with_def add_lyrics_part_def ex_melody_def flatten_def notes_list_def
      part_notes_def lyric_setter_def lyric_text_def)

section \<open>Properties of the stages around the transform\<close>

subsection \<open>export\_to\_pdf\<close>

text \<open>
  Claim C8, as the source has it. When the renderer starts, ends within the timeout and
  its captured output is text in the encoding of the host, export\_to\_pdf raises exactly
  when the exit status is not zero; the exception is a RuntimeError whose message is the
  text \<^verbatim>\<open>MuseScore export failed: \<close> followed by the diagnostic output of the renderer,
  decoded, with every CR LF and every other CR turned into LF and nothing else changed;
  on exit status zero the path of the PDF is returned. In every other case
  export\_to\_pdf ends in the exception of \<^verbatim>\<open>subprocess.run\<close>, whatever the exit status:
  UnicodeDecodeError when the captured output is not text, TimeoutExpired when the
  renderer is still running after 120 seconds, an OSError when it cannot be started.
\<close>

theorem export_to_pdf_outcomes:
  "(run [''musescore3'', musicxml_path, ''-o'', pdf_path] 120 = Exited raw \<and>
    decode (stdout raw) = Some out \<and> decode (stderr raw) = Some err \<longrightarrow>
      (is_raise (export_to_pdf decode run musicxml_path pdf_path) = (returncode raw \<noteq> 0)) \<and>
      (returncode raw \<noteq> 0 \<longrightarrow>
         export_to_pdf decode run musicxml_path pdf_path
           = Inl (RuntimeError (''MuseScore export failed: '' @ universal_newlines err))) \<and>
      (returncode raw = 0 \<longrightarrow> export_to_pdf decode run musicxml_path pdf_path = Inr pdf_path))
   \<and> (run [''musescore3'', musicxml_path, ''-o'', pdf_path] 120 = Exited raw \<and>
        (decode (stdout raw) = None \<or> decode (stderr raw) = None) \<longrightarrow>
      export_to_pdf decode run musicxml_path pdf_path = Inl UnicodeDecodeError)
   \<and> (run [''musescore3'', musicxml_path, ''-o'', pdf_path] 120 = TimedOut \<longrightarrow>
      export_to_pdf decode run musicxml_path pdf_path
        = Inl (TimeoutExpired [''musescore3'', musicxml_path, ''-o'', pdf_path] 120))
   \<and> (run [''musescore3'', musicxml_path, ''-o'', pdf_path] 120 = StartFailed msg \<longrightarrow>
      export_to_pdf decode run musicxml_path pdf_path = Inl (OSError msg))"
  by (auto simp: export_to_pdf_def is_raise_def translate_newlines_def split: option.splits)

theorem export_to_pdf_outcomes_witness:
  "export_to_pdf ascii_decode (host_exit 1 ''no such file'') ''final.musicxml'' ''out.pdf''
     = Inl (RuntimeError ''MuseScore export failed: no such file'') \<and>
   export_to_pdf ascii_decode (host_exit 0 ''warning'') ''final.musicxml'' ''out.pdf'' = Inr ''out.pdf'' \<and>
   export_to_pdf ascii_decode (host_exit 0 [CHR 0xE9]) ''final.musicxml'' ''out.pdf''
     = Inl UnicodeDecodeError \<and>
   export_to_pdf ascii_decode host_hang ''final.musicxml'' ''out.pdf''
     = Inl (TimeoutExpired [''musescore3'', ''final.musicxml'', ''-o'', ''out.pdf''] 120) \<and>
   export_to_pdf ascii_decode host_missing ''final.musicxml'' ''out.pdf'' = Inl (OSError ''musescore3'')"
  using export_to_pdf_outcomes[of "host_exit 1 ''no such file''" "''final.musicxml''" "''out.pdf''"
          "\<lparr>returncode = 1, stdout = [], stderr = ''no such file''\<rparr>" ascii_decode "[]" "''no such file''"]
    export_to_pdf_outcomes[of "host_exit 0 ''warning''" "''final.musicxml''" "''out.pdf''"
          "\<lparr>returncode = 0, stdout = [], stderr = ''warning''\<rparr>" ascii_decode "[]" "''warning''"]
    export_to_pdf_outcomes[of "host_exit 0 [CHR 0xE9]" "''final.musicxml''" "''out.pdf''"
          "\<lparr>returncode = 0, stdout = [], stderr = [CHR 0xE9]\<rparr>" ascii_decode]
    export_to_pdf_outcomes[of host_hang "''final.musicxml''" "''out.pdf''" _ ascii_decode]
    export_to_pdf_outcomes[of host_missing "''final.musicxml''" "''out.pdf''" _ ascii_decode _ _ "''musescore3''"]
  by (simp add: host_exit_def host_hang_def host_missing_def ascii_decode_def)

text \<open>
  Exceptions that do not come from a non-zero exit status: the renderer that does not end
  in time, and the renderer that exits with status 0 and diagnostic output that is not
  text. A message that is not the diagnostic output byte for byte: CR LF has become LF.
\<close>

theorem export_to_pdf_timeout_counterexample:
  "host_hang [''musescore3'', ''final.musicxml'', ''-o'', ''out.pdf''] 120 = TimedOut \<and>
   is_raise (export_to_pdf ascii_decode host_hang ''final.musicxml'' ''out.pdf'') \<and>
   export_to_pdf ascii_decode host_hang ''final.musicxml'' ''out.pdf''
     = Inl (TimeoutExpired [''musescore3'', ''final.musicxml'', ''-o'', ''out.pdf''] 120) \<and>
   is_raise (export_to_pdf ascii_decode (host_exit 0 [CHR 0xE9]) ''final.musicxml'' ''out.pdf'') \<and>
   export_to_pdf ascii_decode (host_exit 1 (''bad'' @ [CHR 0x0D, CHR 0x0A])) ''final.musicxml'' ''out.pdf''
     = Inl (RuntimeError (''MuseScore export failed: bad'' @ [CHR 0x0A]))"
  by (simp add: export_to_pdf_def host_hang_def host_exit_def is_raise_def translate_newlines_def
      ascii_decode_def)

subsection \<open>ocr\_images\_to\_musicxml\<close>

lemma ocr_loop_ran:
  "prefix (st_ran (snd (ocr_loop h d imgs st))) (st_ran st @ map (oemer_command d) imgs) \<and>
   (fst (ocr_loop h d imgs st) = None \<longrightarrow>
      st_ran (snd (ocr_loop h d imgs st)) = st_ran st @ map (oemer_command d) imgs)"
proof (induction imgs arbitrary: st)
  case Nil
  show ?case by simp
next
  case (Cons img imgs)
  obtain r w2 where r: "host_run h (oemer_command d img) 600
      (host_makedirs h (page_output_dir d img) (st_world st)) = (r, w2)"
    by (cases "host_run h (oemer_command d img) 600
      (host_makedirs h (page_output_dir d img) (st_world st))")
  show ?case
  proof (cases r)
    case (StartFailed msg)
    with r show ?thesis by (simp add: Let_def)
  next
    case TimedOut
    with r show ?thesis by (simp add: Let_def)
  next
    case (Exited res)
    let ?st1 = "st\<lparr>st_xml_files :=
         (if host_glob h (path_join (page_output_dir d img) ''*.musicxml'') w2 \<noteq> []
          then st_xml_files st @ [hd (host_glob h (path_join (page_output_dir d img) ''*.musicxml'') w2)]
          else st_xml_files st),
       st_ran := st_ran st @ [oemer_command d img], st_world := w2\<rparr>"
    have e: "ocr_loop h d (img # imgs) st = ocr_loop h d imgs ?st1"
      using r Exited by (simp add: Let_def)
    from Cons[of ?st1] show ?thesis unfolding e by simp
  qed
qed

text \<open>
  Claim C9. For a list of page images that is not empty, the commands run are the
  recognition commands of the images from index 1 on, in order (all of them when no run
  raises, the first ones up to the run that raises otherwise): the first image is
  never recognised. The result, the commands run and the file system left behind are the
  same whatever the first image is, so the first page brings nothing to the list of
  serialized scores.
\<close>

theorem ocr_skips_first_image:
  "prefix (fst (snd (ocr_images_to_musicxml h (first # rest) output_dir w)))
          (map (oemer_command output_dir) rest) \<and>
   (\<not> is_raise (fst (ocr_images_to_musicxml h (first # rest) output_dir w)) \<longrightarrow>
      fst (snd (ocr_images_to_musicxml h (first # rest) output_dir w))
        = map (oemer_command output_dir) rest) \<and>
   ocr_images_to_musicxml h (first # rest) output_dir w
     = ocr_images_to_musicxml h (other # rest) output_dir w"
proof -
  let ?st0 = "\<lparr>st_xml_files = [], st_ran = [], st_world = host_makedirs h output_dir w\<rparr>"
  obtain e st where l: "ocr_loop h output_dir rest ?st0 = (e, st)"
    by (cases "ocr_loop h output_dir rest ?st0")
  from ocr_loop_ran[of h output_dir rest ?st0] l
  have p: "prefix (st_ran st) (map (oemer_command output_dir) rest)"
    and q: "e = None \<longrightarrow> st_ran st = map (oemer_command output_dir) rest" by simp_all
  from p q l show ?thesis
    by (cases e) (simp_all add: ocr_images_to_musicxml_def is_raise_def)
qed

theorem ocr_skips_first_image_witness:
  "ocr_images_to_musicxml ex_host ex_images ''xml'' 0 =
     (Inr [''xml/page_02/score.musicxml'', ''xml/page_04/score.musicxml''],
      [[''oemer'', ''img/page_04.png'', ''-o'', ''xml/page_04''],
       [''oemer'', ''img/page_03.png'', ''-o'', ''xml/page_03''],
       [''oemer'', ''img/page_02.png'', ''-o'', ''xml/page_02'']],
      3) \<and>
   fst (snd (ocr_images_to_musicxml ex_host ex_images ''xml'' 0))
     = map (oemer_command ''xml'') (tl ex_images)"
  using ocr_skips_first_image[of ex_host "hd ex_images" "tl ex_images" "''xml''" 0 "''img/page_01.png''"]
  by (simp add: ocr_images_to_musicxml_def ex_host_def ex_images_def oemer_command_def
      page_output_dir_def path_join_def basename_def Let_def less_eq_char_def less_char_def)

subsection \<open>combine\_musicxml\_pages\<close>

lemma fold_snoc: "fold (\<lambda>measure p. p @ [measure]) ms a = a @ ms"
  by (induction ms arbitrary: a) simp_all

lemma length_append_parts: "length (append_parts idx ps c) = length c"
  by (induction ps arbitrary: idx c) simp_all

lemma append_parts_nth:
  "i < length c \<Longrightarrow>
   append_parts idx ps c ! i =
     c ! i @ (if idx \<le> i \<and> i < idx + length ps then ps ! (i - idx) else [])"
proof (induction ps arbitrary: idx c)
  case Nil
  then show ?case by auto
next
  case (Cons p ps)
  let ?c1 = "if idx < length c then c[idx := c ! idx @ p] else c"
  have l: "i < length ?c1" using Cons.prems by simp
  have "append_parts idx (p # ps) c ! i = append_parts (Suc idx) ps ?c1 ! i"
    by (simp add: fold_snoc)
  also have "\<dots> = ?c1 ! i @ (if Suc idx \<le> i \<and> i < Suc idx + length ps then ps ! (i - Suc idx) else [])"
    by (rule Cons.IH[OF l])
  also have "\<dots> = c ! i @ (if idx \<le> i \<and> i < idx + length (p # ps) then (p # ps) ! (i - idx) else [])"
  proof (cases "i = idx")
    case True
    with Cons.prems show ?thesis by simp
  next
    case False
    then have "?c1 ! i = c ! i" by simp
    with False show ?thesis by (auto simp: nth_Cons' Suc_le_eq)
  qed
  finally show ?case .
qed

lemma fold_pages_length:
  "length (fold (\<lambda>xml_file combined. append_parts 0 (parse xml_file) combined) fs c) = length c"
  by (induction fs arbitrary: c) (simp_all add: length_append_parts)

lemma fold_pages_nth:
  "i < length c \<Longrightarrow>
   fold (\<lambda>xml_file combined. append_parts 0 (parse xml_file) combined) fs c ! i =
     c ! i @ concat (map (\<lambda>f. page_part (parse f) i) fs)"
proof (induction fs arbitrary: c)
  case Nil
  then show ?case by simp
next
  case (Cons f fs)
  have l: "i < length (append_parts 0 (parse f) c)" using Cons.prems by (simp add: length_append_parts)
  from Cons.IH[OF l] Cons.prems show ?case
    by (simp add: append_parts_nth page_part_def)
qed

text \<open>
  Claim C10. The combined score has the parts of the first page and no other: its part
  at index \<open>i\<close> is the part \<open>i\<close> of the first page followed, page after page, by the
  measures, in order, of the part \<open>i\<close> of every later page that has a part at that index.
  A part of a later page at an index the first page does not have is dropped, so the
  number of parts of the combined score is that of the first page.
\<close>

theorem combine_keeps_first_page_parts:
  "combine_musicxml_pages parse (first # later) =
     Inr (map (\<lambda>i. parse first ! i @ concat (map (\<lambda>f. page_part (parse f) i) later))
            [0..<length (parse first)]) \<and>
   length (projr (combine_musicxml_pages parse (first # later))) = length (parse first)"
  by (auto simp: combine_musicxml_pages_def fold_pages_length fold_pages_nth intro: nth_equalityI)

theorem combine_keeps_first_page_parts_witness:
  "combine_musicxml_pages ex_parse [''p1.musicxml'', ''p2.musicxml'', ''p3.musicxml''] =
     Inr [[ex_measure 1, ex_measure 2, ex_measure 4, ex_measure 7], [ex_measure 3, ex_measure 5]]"
  using combine_keeps_first_page_parts[of ex_parse "''p1.musicxml''" "[''p2.musicxml'', ''p3.musicxml'']"]
  by (simp add: ex_parse_def page_part_def upt_rec)

end
